theory Spec2Isabelle
  imports Main "HOL-Library.Word"
begin

unbundle bit_operations_syntax

section \<open>The registry of discoverd2/server/state.go\<close>

subsection \<open>Event kinds and events\<close>

text \<open>
  \<^verbatim>\<open>type EventKind uint\<close>: a bit mask, taken here at 64 bits. The constants are
  \<^verbatim>\<open>1 << iota\<close> for iota = 0, 1, 2, 3, then all bits set and zero.
\<close>

type_synonym EventKind = "64 word"

definition EventKindUp :: EventKind where
  "EventKindUp = push_bit 0 1"

definition EventKindUpdate :: EventKind where
  "EventKindUpdate = push_bit 1 1"

definition EventKindDown :: EventKind where
  "EventKindDown = push_bit 2 1"

definition EventKindLeader :: EventKind where
  "EventKindLeader = push_bit 3 1"

definition EventKindAll :: EventKind where
  "EventKindAll = NOT 0"

definition EventKindUnknown :: EventKind where
  "EventKindUnknown = 0"

text \<open>
  An instance. \<^verbatim>\<open>Meta\<close> is a Go map, read only through lookups and \<^verbatim>\<open>len\<close>, so a
  nil map and an empty one are the same value \<open>Map.empty\<close>. \<^verbatim>\<open>Index\<close> is a uint64.
\<close>

record Instance =
  ID :: string
  Addr :: string
  Proto :: string
  Meta :: "string \<rightharpoonup> string"
  Index :: "64 word"

record Event =
  Service :: string
  Kind :: EventKind
  Instance :: Instance

definition eventKindUpdate :: "bool \<Rightarrow> EventKind" where
  "eventKindUpdate existing = (if existing then EventKindUpdate else EventKindUp)"

subsection \<open>Instance: equality and validation\<close>

text \<open>
  \<^verbatim>\<open>mapEqual\<close>: the lengths agree and every entry of \<open>x\<close> is an entry of \<open>y\<close>.
\<close>

definition mapEqual :: "(string \<rightharpoonup> string) \<Rightarrow> (string \<rightharpoonup> string) \<Rightarrow> bool" where
  "mapEqual x y \<longleftrightarrow>
     (if card (dom x) \<noteq> card (dom y) then False
      else (\<forall>k \<in> dom x. y k = x k))"

definition Instance_Equal :: "Instance \<Rightarrow> Instance \<Rightarrow> bool" where
  "Instance_Equal inst other \<longleftrightarrow>
     Addr inst = Addr other \<and> Proto inst = Proto other \<and> mapEqual (Meta inst) (Meta other)"

text \<open>
  The errors \<^verbatim>\<open>Valid\<close> can return: the two package-level proto errors, whatever error
  \<^verbatim>\<open>net.SplitHostPort\<close> returned, and the \<^verbatim>\<open>fmt.Errorf\<close> value that carries the
  expected id.
\<close>

datatype 'e error =
    ErrUnsetProto
  | ErrInvalidProto
  | AddrError 'e
  | ErrIncorrectID string

text \<open>
  The loop of \<^verbatim>\<open>validProto\<close> ranges over the runes of the string. A rune inside
  \<^verbatim>\<open>'a'..'z'\<close> or \<^verbatim>\<open>'0'..'9'\<close> is decoded from exactly one byte of that value, and
  every other byte sequence decodes to runes from 0x80 upwards (or to U+FFFD), so the
  test on runes is the same test on the bytes of the string.
\<close>

definition rune :: "char \<Rightarrow> nat" where
  "rune r = of_char r"

fun validProto_range :: "string \<Rightarrow> 'e error option" where
  "validProto_range [] = None"
| "validProto_range (r # rs) =
     (if (rune r < rune CHR ''a'' \<or> rune r > rune CHR ''z'')
         \<and> (rune r < rune CHR ''0'' \<or> rune r > rune CHR ''9'')
      then Some ErrInvalidProto
      else validProto_range rs)"

definition Instance_validProto :: "Instance \<Rightarrow> 'e error option" where
  "Instance_validProto inst =
     (if Proto inst = [] then Some ErrUnsetProto else validProto_range (Proto inst))"

text \<open>
  \<^verbatim>\<open>md5sum\<close> is \<^verbatim>\<open>hex.EncodeToString\<close> of \<^verbatim>\<open>md5.Sum\<close>, and the address check is
  \<^verbatim>\<open>net.SplitHostPort\<close>; both belong to the Go standard library and are parameters
  here: \<open>md5sum\<close> maps the data to the hex digest, \<open>SplitHostPort\<close> returns either an
  error or the host and the port.
\<close>

definition Instance_id :: "(string \<Rightarrow> string) \<Rightarrow> Instance \<Rightarrow> string" where
  "Instance_id md5sum inst = md5sum (Proto inst @ ''-'' @ Addr inst)"

definition Instance_Valid ::
  "(string \<Rightarrow> 'e + string \<times> string) \<Rightarrow> (string \<Rightarrow> string) \<Rightarrow> Instance \<Rightarrow> 'e error option" where
  "Instance_Valid SplitHostPort md5sum inst =
     (case Instance_validProto inst of
        Some err \<Rightarrow> Some err
      | None \<Rightarrow>
          (case SplitHostPort (Addr inst) of
             Inl err \<Rightarrow> Some (AddrError err)
           | Inr _ \<Rightarrow>
               (let expected = Instance_id md5sum inst
                in if ID inst \<noteq> expected then Some (ErrIncorrectID expected) else None)))"

subsection \<open>Ranging over a Go map\<close>

text \<open>
  \<^verbatim>\<open>for k, v := range m\<close> visits every entry of the map once, in an order the language
  leaves open. The order is a parameter of every function that ranges over a map: the
  list \<open>ks\<close> of the keys in the order of the visit. \<open>range_order ks m\<close> says that \<open>ks\<close>
  is such an order for \<open>m\<close>; the theorems hold for every such order.
\<close>

definition range_entries :: "'k list \<Rightarrow> ('k \<rightharpoonup> 'v) \<Rightarrow> ('k \<times> 'v) list" where
  "range_entries ks m = List.map_filter (\<lambda>k. map_option (Pair k) (m k)) ks"

definition range_values :: "'k list \<Rightarrow> ('k \<rightharpoonup> 'v) \<Rightarrow> 'v list" where
  "range_values ks m = map snd (range_entries ks m)"

definition range_order :: "'k list \<Rightarrow> ('k \<rightharpoonup> 'v) \<Rightarrow> bool" where
  "range_order ks m \<longleftrightarrow> distinct ks \<and> set ks = dom m"

subsection \<open>The service table\<close>

record service =
  instances :: "string \<rightharpoonup> Instance"
  leaderID :: string
  leaderIndex :: "64 word"
  notifyLeader :: bool

definition newService :: service where
  "newService = \<lparr>instances = Map.empty, leaderID = [], leaderIndex = 0, notifyLeader = False\<rparr>"

definition service_maybeSetLeader :: "Instance \<Rightarrow> service \<Rightarrow> service" where
  "service_maybeSetLeader inst s =
     (if leaderIndex s = 0 \<or> leaderIndex s > Index inst
      then s\<lparr>notifyLeader := notifyLeader s \<or> ID inst \<noteq> leaderID s,
             leaderID := ID inst,
             leaderIndex := Index inst\<rparr>
      else s)"

definition service_maybePickLeader :: "string list \<Rightarrow> service \<Rightarrow> service" where
  "service_maybePickLeader ks s =
     foldl (\<lambda>s' inst. service_maybeSetLeader inst s') s (range_values ks (instances s))"

text \<open>The methods that return a value return it together with the updated service.\<close>

definition service_AddInstance :: "Instance \<Rightarrow> service \<Rightarrow> Instance option \<times> service" where
  "service_AddInstance inst s =
     (let old = instances s (ID inst);
          s1 = s\<lparr>instances := (instances s)(ID inst \<mapsto> inst)\<rparr>
      in (old, service_maybeSetLeader inst s1))"

definition service_RemoveInstance ::
  "string list \<Rightarrow> string \<Rightarrow> service \<Rightarrow> Instance option \<times> service" where
  "service_RemoveInstance ks iid s =
     (case instances s iid of
        None \<Rightarrow> (None, s)
      | Some inst \<Rightarrow>
          (let s1 = s\<lparr>instances := (instances s)(iid := None)\<rparr>
           in if ID inst = leaderID s1
              then (Some inst, service_maybePickLeader ks (s1\<lparr>leaderID := [], leaderIndex := 0\<rparr>))
              else (Some inst, s1)))"

definition service_SetInstances :: "string list \<Rightarrow> (string \<rightharpoonup> Instance) \<Rightarrow> service \<Rightarrow> service" where
  "service_SetInstances ks data s =
     (let s1 = (if data (leaderID s) = None then s\<lparr>leaderID := [], leaderIndex := 0\<rparr> else s)
      in service_maybePickLeader ks (s1\<lparr>instances := data\<rparr>))"

definition service_BroadcastLeader :: "service \<Rightarrow> Instance option \<times> service" where
  "service_BroadcastLeader s =
     (if notifyLeader s then (instances s (leaderID s), s\<lparr>notifyLeader := False\<rparr>)
      else (None, s))"

text \<open>
  \<^verbatim>\<open>Leader\<close> is called on the pointer a map lookup returned, nil for a missing name, and
  tests the receiver for nil: the receiver is a \<open>service option\<close>.
\<close>

definition service_Leader :: "service option \<Rightarrow> Instance option" where
  "service_Leader sp = (case sp of None \<Rightarrow> None | Some s \<Rightarrow> instances s (leaderID s))"

subsection \<open>The state\<close>

text \<open>
  \<^verbatim>\<open>ErrSendBlocked\<close> is the only error a subscription records. The channel of a
  subscription is a name; the fields \<^verbatim>\<open>el\<close> and \<^verbatim>\<open>state\<close> point back into the list
  and the state that hold the subscription and have no counterpart.
\<close>

datatype sub_error = ErrSendBlocked

record subscription =
  kinds :: EventKind
  ch :: nat
  err :: "sub_error option"
  service :: string
  closed :: bool

record State =
  services :: "string \<rightharpoonup> service"
  subscribers :: "string \<rightharpoonup> subscription list"

definition NewState :: State where
  "NewState = \<lparr>services = Map.empty, subscribers = Map.empty\<rparr>"

text \<open>
  A method that reads a field through a nil \<^verbatim>\<open>*service\<close> panics. A mutation returns the
  panic, or the new state with the events it handed to \<^verbatim>\<open>broadcast\<close>, in the order of
  the calls. What \<^verbatim>\<open>broadcast\<close> then does with an event (a non-blocking send to each
  subscriber whose mask has the kind) depends on which receivers are ready and is left
  out: an event is emitted when \<^verbatim>\<open>broadcast\<close> is called with it.
\<close>

datatype panic = NilPointerDereference

type_synonym result = "panic + State \<times> Event list"

definition andThen :: "result \<Rightarrow> (State \<Rightarrow> result) \<Rightarrow> result" where
  "andThen r f =
     (case r of
        Inl p \<Rightarrow> Inl p
      | Inr (s, evs) \<Rightarrow> (case f s of Inl p \<Rightarrow> Inl p | Inr (s', evs') \<Rightarrow> Inr (s', evs @ evs')))"

definition State_AddService :: "string \<Rightarrow> State \<Rightarrow> result" where
  "State_AddService name s =
     (if services s name = None
      then Inr (s\<lparr>services := (services s)(name \<mapsto> newService)\<rparr>, [])
      else Inr (s, []))"

definition State_RemoveService :: "string list \<Rightarrow> string \<Rightarrow> State \<Rightarrow> result" where
  "State_RemoveService ks name s =
     (case services s name of
        None \<Rightarrow> Inl NilPointerDereference
      | Some svc \<Rightarrow>
          Inr (s\<lparr>services := (services s)(name := None)\<rparr>,
               map (\<lambda>inst. \<lparr>Service = name, Kind = EventKindDown, Instance = inst\<rparr>)
                 (range_values ks (instances svc))))"

definition State_broadcastLeader :: "string \<Rightarrow> State \<Rightarrow> result" where
  "State_broadcastLeader serviceName s =
     (case services s serviceName of
        None \<Rightarrow> Inl NilPointerDereference
      | Some svc \<Rightarrow>
          (case service_BroadcastLeader svc of
             (None, svc') \<Rightarrow> Inr (s\<lparr>services := (services s)(serviceName \<mapsto> svc')\<rparr>, [])
           | (Some leader, svc') \<Rightarrow>
               Inr (s\<lparr>services := (services s)(serviceName \<mapsto> svc')\<rparr>,
                    [\<lparr>Service = serviceName, Kind = EventKindLeader, Instance = leader\<rparr>])))"

definition State_AddInstance :: "string \<Rightarrow> Instance \<Rightarrow> State \<Rightarrow> result" where
  "State_AddInstance serviceName inst s =
     (let data = (case services s serviceName of None \<Rightarrow> newService | Some d \<Rightarrow> d);
          (old, data') = service_AddInstance inst data;
          s1 = s\<lparr>services := (services s)(serviceName \<mapsto> data')\<rparr>
      in andThen
           (Inr (s1,
              (case old of
                 None \<Rightarrow> [\<lparr>Service = serviceName, Kind = eventKindUpdate False, Instance = inst\<rparr>]
               | Some old' \<Rightarrow>
                   if \<not> Instance_Equal inst old'
                   then [\<lparr>Service = serviceName, Kind = eventKindUpdate True, Instance = inst\<rparr>]
                   else [])))
           (State_broadcastLeader serviceName))"

definition State_RemoveInstance :: "string list \<Rightarrow> string \<Rightarrow> string \<Rightarrow> State \<Rightarrow> result" where
  "State_RemoveInstance ks serviceName iid s =
     (case services s serviceName of
        None \<Rightarrow> Inr (s, [])
      | Some data \<Rightarrow>
          (case service_RemoveInstance ks iid data of
             (None, data') \<Rightarrow> Inr (s\<lparr>services := (services s)(serviceName \<mapsto> data')\<rparr>, [])
           | (Some inst, data') \<Rightarrow>
               andThen
                 (Inr (s\<lparr>services := (services s)(serviceName \<mapsto> data')\<rparr>,
                       [\<lparr>Service = serviceName, Kind = EventKindDown, Instance = inst\<rparr>]))
                 (State_broadcastLeader serviceName)))"

text \<open>
  \<^verbatim>\<open>SetService\<close> takes a slice, nil or not: \<open>None\<close> is the nil slice. \<open>newData_of\<close> is
  its loop \<^verbatim>\<open>newData[inst.ID] = inst\<close>. The new service \<^verbatim>\<open>&service{}\<close> has a nil
  instance map, which \<^verbatim>\<open>SetInstances\<close> replaces before anything is written to it, so it
  is \<open>newService\<close>. \<open>ks_new\<close> is the order in which \<^verbatim>\<open>maybePickLeader\<close> visits the new
  map and \<open>ks_old\<close> the order in which the search for deleted instances visits the old one.
\<close>

definition newData_of :: "Instance list \<Rightarrow> (string \<rightharpoonup> Instance)" where
  "newData_of xs = foldl (\<lambda>m inst. m(ID inst \<mapsto> inst)) Map.empty xs"

definition State_SetService ::
  "string list \<Rightarrow> string list \<Rightarrow> string \<Rightarrow> Instance list option \<Rightarrow> State \<Rightarrow> result" where
  "State_SetService ks_new ks_old serviceName data s =
     (let oldService = services s serviceName;
          ok = (oldService \<noteq> None);
          oldData = (case oldService of None \<Rightarrow> Map.empty | Some svc \<Rightarrow> instances svc);
          newData = (case data of None \<Rightarrow> Map.empty | Some xs \<Rightarrow> newData_of xs);
          s1 = (case data of
                  None \<Rightarrow> s\<lparr>services := (services s)(serviceName := None)\<rparr>
                | Some xs \<Rightarrow>
                    s\<lparr>services := (services s)(serviceName \<mapsto>
                         service_SetInstances ks_new newData
                           (case oldService of None \<Rightarrow> newService | Some svc \<Rightarrow> svc))\<rparr>);
          elems = (case data of None \<Rightarrow> [] | Some xs \<Rightarrow> xs)
      in if \<not> ok
         then andThen
                (Inr (s1, map (\<lambda>inst. \<lparr>Service = serviceName, Kind = EventKindUp, Instance = inst\<rparr>) elems))
                (State_broadcastLeader serviceName)
         else andThen
                (Inr (s1,
                   concat (map (\<lambda>inst.
                       (case oldData (ID inst) of
                          None \<Rightarrow>
                            [\<lparr>Service = serviceName, Kind = eventKindUpdate False, Instance = inst\<rparr>]
                        | Some old \<Rightarrow>
                            if \<not> Instance_Equal inst old
                            then [\<lparr>Service = serviceName, Kind = eventKindUpdate True, Instance = inst\<rparr>]
                            else [])) elems)
                   @ concat (map (\<lambda>(k, v).
                       if newData k = None
                       then [\<lparr>Service = serviceName, Kind = EventKindDown, Instance = v\<rparr>]
                       else []) (range_entries ks_old oldData))))
                (\<lambda>s2. if length elems > 0 then State_broadcastLeader serviceName s2 else Inr (s2, [])))"

definition State_GetLeader :: "string \<Rightarrow> State \<Rightarrow> Instance option" where
  "State_GetLeader name s = service_Leader (services s name)"

definition State_getLocked :: "string list \<Rightarrow> string \<Rightarrow> State \<Rightarrow> Instance list" where
  "State_getLocked ks name s =
     (case services s name of
        None \<Rightarrow> []
      | Some data \<Rightarrow> range_values ks (instances data))"

text \<open>
  \<^verbatim>\<open>Subscribe\<close> returns the state with the subscription appended to the list of the
  service, and the events it sent on the channel, in the order of the sends. The sends
  block until the receiver takes the value; the locks that keep mutations away in the
  meantime have no counterpart in a sequential model.
\<close>

definition State_Subscribe ::
  "string list \<Rightarrow> string \<Rightarrow> bool \<Rightarrow> EventKind \<Rightarrow> nat \<Rightarrow> State \<Rightarrow> result" where
  "State_Subscribe ks name sendCurrent0 kindMask chan s =
     (let sendCurrent =
            (sendCurrent0 \<and> kindMask AND (EventKindUp OR EventKindUpdate OR EventKindLeader) \<noteq> 0);
          current = (if sendCurrent then State_getLocked ks name s else []);
          currentLeader = (if sendCurrent then service_Leader (services s name) else None);
          l = (case subscribers s name of None \<Rightarrow> [] | Some l' \<Rightarrow> l');
          sub = \<lparr>kinds = kindMask, ch = chan, err = None, service = name, closed = False\<rparr>;
          s' = s\<lparr>subscribers := (subscribers s)(name \<mapsto> l @ [sub])\<rparr>
      in Inr (s',
           (if kindMask AND (EventKindUp OR EventKindUpdate) \<noteq> 0
            then map (\<lambda>inst. \<lparr>Service = name, Kind = EventKindUp, Instance = inst\<rparr>) current
            else [])
           @ (if kindMask AND EventKindLeader \<noteq> 0
              then (case currentLeader of
                      None \<Rightarrow> []
                    | Some leader \<Rightarrow> [\<lparr>Service = name, Kind = EventKindLeader, Instance = leader\<rparr>])
              else [])))"

subsection \<open>Sequences of mutations of one service\<close>

text \<open>
  The instance map of a service is keyed by instance ID (the field's comment:
  \<^verbatim>\<open>instance ID -> instance\<close>): \<^verbatim>\<open>AddInstance\<close> stores under \<^verbatim>\<open>inst.ID\<close>, and the only
  caller of \<^verbatim>\<open>SetInstances\<close> builds its map with \<^verbatim>\<open>newData[inst.ID] = inst\<close>.
\<close>

definition keyed_by_ID :: "(string \<rightharpoonup> Instance) \<Rightarrow> bool" where
  "keyed_by_ID m \<longleftrightarrow> (\<forall>k inst. m k = Some inst \<longrightarrow> ID inst = k)"

text \<open>
  \<open>reach_pos s\<close>: the service \<open>s\<close> is reached from a new service by the mutations of the
  service table, every instance handed in having a strictly positive index. Clearing the
  pending notification (\<^verbatim>\<open>BroadcastLeader\<close>) may come between any two of them.
\<close>

inductive reach_pos :: "service \<Rightarrow> bool" where
  pos_new: "reach_pos newService"
| pos_add: "reach_pos s \<Longrightarrow> 0 < Index inst \<Longrightarrow> reach_pos (snd (service_AddInstance inst s))"
| pos_remove: "reach_pos s \<Longrightarrow> range_order ks ((instances s)(iid := None)) \<Longrightarrow>
     reach_pos (snd (service_RemoveInstance ks iid s))"
| pos_set: "reach_pos s \<Longrightarrow> keyed_by_ID data \<Longrightarrow> \<forall>inst \<in> ran data. 0 < Index inst \<Longrightarrow>
     range_order ks data \<Longrightarrow> reach_pos (service_SetInstances ks data s)"
| pos_broadcast: "reach_pos s \<Longrightarrow> reach_pos (snd (service_BroadcastLeader s))"

text \<open>
  \<open>reach_uniq s\<close>: as before, and moreover indices are unique (an instance handed in has
  an index no instance registered under another ID has, and the instances of a new map have
  pairwise different indices), and an ID that is registered is handed in again only with
  the index it is registered with.
\<close>

definition fresh_index :: "(string \<rightharpoonup> Instance) \<Rightarrow> Instance \<Rightarrow> bool" where
  "fresh_index m inst \<longleftrightarrow>
     (\<forall>k old. m k = Some old \<longrightarrow>
        (if k = ID inst then Index old = Index inst else Index old \<noteq> Index inst))"

definition unique_indices :: "(string \<rightharpoonup> Instance) \<Rightarrow> bool" where
  "unique_indices m \<longleftrightarrow>
     (\<forall>k k' i i'. m k = Some i \<and> m k' = Some i' \<and> k \<noteq> k' \<longrightarrow> Index i \<noteq> Index i')"

definition same_index_kept :: "(string \<rightharpoonup> Instance) \<Rightarrow> (string \<rightharpoonup> Instance) \<Rightarrow> bool" where
  "same_index_kept m data \<longleftrightarrow>
     (\<forall>k old new. m k = Some old \<and> data k = Some new \<longrightarrow> Index old = Index new)"

inductive reach_uniq :: "service \<Rightarrow> bool" where
  uniq_new: "reach_uniq newService"
| uniq_add: "reach_uniq s \<Longrightarrow> 0 < Index inst \<Longrightarrow> fresh_index (instances s) inst \<Longrightarrow>
     reach_uniq (snd (service_AddInstance inst s))"
| uniq_remove: "reach_uniq s \<Longrightarrow> range_order ks ((instances s)(iid := None)) \<Longrightarrow>
     reach_uniq (snd (service_RemoveInstance ks iid s))"
| uniq_set: "reach_uniq s \<Longrightarrow> keyed_by_ID data \<Longrightarrow> \<forall>inst \<in> ran data. 0 < Index inst \<Longrightarrow>
     unique_indices data \<Longrightarrow> same_index_kept (instances s) data \<Longrightarrow>
     range_order ks data \<Longrightarrow> reach_uniq (service_SetInstances ks data s)"
| uniq_broadcast: "reach_uniq s \<Longrightarrow> reach_uniq (snd (service_BroadcastLeader s))"

text \<open>
  The invariants of the leader bookkeeping. \<open>leader_inv\<close>: the map is keyed by ID, no
  leader index is held over an empty map, and over a non-empty map the leader is
  registered. \<open>min_inv\<close>: moreover indices are positive and unique, and the leader index
  is the index of the registered leader and the smallest of all.
\<close>

definition leader_inv :: "service \<Rightarrow> bool" where
  "leader_inv s \<longleftrightarrow>
     keyed_by_ID (instances s)
     \<and> (if instances s = Map.empty then leaderIndex s = 0 else leaderID s \<in> dom (instances s))"

definition min_inv :: "service \<Rightarrow> bool" where
  "min_inv s \<longleftrightarrow>
     keyed_by_ID (instances s)
     \<and> (\<forall>i \<in> ran (instances s). 0 < Index i)
     \<and> unique_indices (instances s)
     \<and> (if instances s = Map.empty then leaderIndex s = 0
        else (\<exists>l. instances s (leaderID s) = Some l \<and> leaderIndex s = Index l
                \<and> (\<forall>i \<in> ran (instances s). Index l \<le> Index i)))"

subsection \<open>Words of the specification\<close>

text \<open>
  The specification's "non-empty string of lowercase ASCII letters and digits" speaks of
  the set of characters of the string; \<open>lowercase_alnum\<close> is that part of it.
\<close>

definition lowercase_alnum :: "string \<Rightarrow> bool" where
  "lowercase_alnum p \<longleftrightarrow>
     (\<forall>r \<in> set p. (rune CHR ''a'' \<le> rune r \<and> rune r \<le> rune CHR ''z'')
                  \<or> (rune CHR ''0'' \<le> rune r \<and> rune r \<le> rune CHR ''9''))"

text \<open>The instance map of a name, empty for a name the registry does not have.\<close>

definition instances_of :: "State \<Rightarrow> string \<Rightarrow> (string \<rightharpoonup> Instance)" where
  "instances_of s name = (case services s name of None \<Rightarrow> Map.empty | Some svc \<Rightarrow> instances svc)"

subsection \<open>Example values\<close>

definition instA :: Instance where
  "instA = \<lparr>ID = ''a1'', Addr = ''10.0.0.1:80'', Proto = ''http'', Meta = Map.empty, Index = 5\<rparr>"

definition instA' :: Instance where
  "instA' = \<lparr>ID = ''a1'', Addr = ''10.0.0.1:80'', Proto = ''http'', Meta = Map.empty, Index = 3\<rparr>"

definition instB :: Instance where
  "instB = \<lparr>ID = ''b2'', Addr = ''10.0.0.2:80'', Proto = ''http'', Meta = Map.empty, Index = 7\<rparr>"

definition instZ :: Instance where
  "instZ = \<lparr>ID = ''z9'', Addr = ''10.0.0.1:80'', Proto = ''http'', Meta = Map.empty, Index = 9\<rparr>"

definition svcA :: service where
  "svcA = \<lparr>instances = [''a1'' \<mapsto> instA], leaderID = ''a1'', leaderIndex = 5, notifyLeader = False\<rparr>"

definition svcA_pending :: service where
  "svcA_pending = \<lparr>instances = [''a1'' \<mapsto> instA], leaderID = ''a1'', leaderIndex = 5, notifyLeader = True\<rparr>"

definition stateA :: State where
  "stateA = \<lparr>services = [''web'' \<mapsto> svcA], subscribers = Map.empty\<rparr>"

section \<open>Instance validation\<close>

lemma validProto_range_None:
  "(validProto_range p :: 'e error option) = None \<longleftrightarrow> lowercase_alnum p"
  unfolding lowercase_alnum_def by (induction p) (auto simp: not_less)

lemma validProto_range_Some:
  "\<not> lowercase_alnum p \<Longrightarrow> (validProto_range p :: 'e error option) = Some ErrInvalidProto"
  unfolding lowercase_alnum_def by (induction p) (auto simp: not_less)

lemma Instance_validProto_eq:
  "(Instance_validProto inst :: 'e error option) =
     (if Proto inst = [] then Some ErrUnsetProto
      else if \<not> lowercase_alnum (Proto inst) then Some ErrInvalidProto
      else None)"
  by (simp add: Instance_validProto_def validProto_range_None validProto_range_Some)

text \<open>
  C8. \<^verbatim>\<open>Valid\<close> returns the error of the first check that fails, in the order: proto
  unset, proto not lowercase alphanumeric, address not split by \<^verbatim>\<open>net.SplitHostPort\<close>,
  ID different from the digest of \<^verbatim>\<open>Proto + "-" + Addr\<close>; each failure has an error of
  its own kind. It returns nil exactly when the proto is a non-empty string of lowercase
  letters and digits, the address splits, and the ID is the digest.
\<close>

theorem Valid_first_failing_check:
  fixes SplitHostPort :: "string \<Rightarrow> 'e + string \<times> string"
  shows "Instance_Valid SplitHostPort md5sum inst =
           (if Proto inst = [] then Some ErrUnsetProto
            else if \<not> lowercase_alnum (Proto inst) then Some ErrInvalidProto
            else case SplitHostPort (Addr inst) of
                   Inl e \<Rightarrow> Some (AddrError e)
                 | Inr hp \<Rightarrow>
                     if ID inst \<noteq> md5sum (Proto inst @ ''-'' @ Addr inst)
                     then Some (ErrIncorrectID (md5sum (Proto inst @ ''-'' @ Addr inst)))
                     else None)
         \<and> (Instance_Valid SplitHostPort md5sum inst = None \<longleftrightarrow>
              Proto inst \<noteq> [] \<and> lowercase_alnum (Proto inst)
              \<and> (\<exists>hp. SplitHostPort (Addr inst) = Inr hp)
              \<and> ID inst = md5sum (Proto inst @ ''-'' @ Addr inst))"
  by (auto simp: Instance_Valid_def Instance_validProto_eq Instance_id_def Let_def
           split: sum.splits)

theorem Valid_first_failing_check_witness:
  "Instance_Valid
     (\<lambda>a. if a = ''10.0.0.1:80'' then Inr (''10.0.0.1'', ''80'') else Inl ''missing port in address'')
     (\<lambda>d. ''a1'') instA = None
   \<and> lowercase_alnum (Proto instA)
   \<and> Instance_Valid
       (\<lambda>a. if a = ''10.0.0.1:80'' then Inr (''10.0.0.1'', ''80'') else Inl ''missing port in address'')
       (\<lambda>d. ''a1'') (instA\<lparr>Proto := ''Http''\<rparr>) = Some ErrInvalidProto
   \<and> \<not> lowercase_alnum ''Http''
   \<and> Instance_Valid
       (\<lambda>a. if a = ''10.0.0.1:80'' then Inr (''10.0.0.1'', ''80'') else Inl ''missing port in address'')
       (\<lambda>d. ''a1'') (instA\<lparr>Addr := ''10.0.0.1''\<rparr>) = Some (AddrError ''missing port in address'')
   \<and> Instance_Valid
       (\<lambda>a. if a = ''10.0.0.1:80'' then Inr (''10.0.0.1'', ''80'') else Inl ''missing port in address'')
       (\<lambda>d. ''a1'') (instA\<lparr>ID := ''ff''\<rparr>) = Some (ErrIncorrectID ''a1'')"
  using
    Valid_first_failing_check
      [of "\<lambda>a. if a = ''10.0.0.1:80'' then Inr (''10.0.0.1'', ''80'') else Inl ''missing port in address''"
          "\<lambda>d. ''a1''" instA]
    Valid_first_failing_check
      [of "\<lambda>a. if a = ''10.0.0.1:80'' then Inr (''10.0.0.1'', ''80'') else Inl ''missing port in address''"
          "\<lambda>d. ''a1''" "instA\<lparr>Proto := ''Http''\<rparr>"]
    Valid_first_failing_check
      [of "\<lambda>a. if a = ''10.0.0.1:80'' then Inr (''10.0.0.1'', ''80'') else Inl ''missing port in address''"
          "\<lambda>d. ''a1''" "instA\<lparr>Addr := ''10.0.0.1''\<rparr>"]
    Valid_first_failing_check
      [of "\<lambda>a. if a = ''10.0.0.1:80'' then Inr (''10.0.0.1'', ''80'') else Inl ''missing port in address''"
          "\<lambda>d. ''a1''" "instA\<lparr>ID := ''ff''\<rparr>"]
  by (simp add: lowercase_alnum_def rune_def instA_def)

text \<open>Two valid instances with the same proto and address have the same ID.\<close>

lemma Valid_same_ID:
  fixes SplitHostPort :: "string \<Rightarrow> 'e + string \<times> string"
  assumes "Instance_Valid SplitHostPort md5sum A = None"
    and "Instance_Valid SplitHostPort md5sum A' = None"
    and "Proto A' = Proto A" and "Addr A' = Addr A"
  shows "ID A' = ID A"
  using assms
  by (auto simp: Instance_Valid_def Instance_id_def Let_def
           split: option.splits sum.splits if_splits)

section \<open>The leader of a service\<close>

text \<open>
  C5, as the code has it. When \<^verbatim>\<open>maybeSetLeader\<close> adopts the instance (no leader, or a
  smaller index), \<^verbatim>\<open>notifyLeader\<close> is true afterwards exactly when it was true before the
  call or the new \<^verbatim>\<open>leaderID\<close> differs from the one held before the call: a pending
  notification stays pending. When the instance is not adopted the flag is unchanged.
\<close>

theorem maybeSetLeader_notifyLeader:
  "notifyLeader (service_maybeSetLeader inst s) =
     (if leaderIndex s = 0 \<or> Index inst < leaderIndex s
      then notifyLeader s \<or> leaderID (service_maybeSetLeader inst s) \<noteq> leaderID s
      else notifyLeader s)"
  by (simp add: service_maybeSetLeader_def)

theorem maybeSetLeader_notifyLeader_witness:
  "notifyLeader (service_maybeSetLeader instB newService)
   \<and> leaderID (service_maybeSetLeader instB newService) \<noteq> leaderID newService
   \<and> \<not> notifyLeader (service_maybeSetLeader instA' svcA)
   \<and> leaderID (service_maybeSetLeader instA' svcA) = leaderID svcA
   \<and> Index instA' < leaderIndex svcA
   \<and> \<not> notifyLeader (service_maybeSetLeader instB svcA)"
  using maybeSetLeader_notifyLeader [of instB newService]
    maybeSetLeader_notifyLeader [of instA' svcA]
    maybeSetLeader_notifyLeader [of instB svcA]
  by (simp add: service_maybeSetLeader_def newService_def svcA_def instA'_def instB_def)

text \<open>
  C5, as the claim has it, fails when a notification is pending, as it is after
  \<^verbatim>\<open>AddInstance\<close> on a new service: the leader \<open>a1\<close> is adopted again with a smaller
  index, the \<^verbatim>\<open>leaderID\<close> does not change, and \<^verbatim>\<open>notifyLeader\<close> is true after the
  call.
\<close>

theorem maybeSetLeader_notifyLeader_counterexample:
  "svcA_pending = snd (service_AddInstance instA newService)
   \<and> Index instA' < leaderIndex svcA_pending
   \<and> leaderID (service_maybeSetLeader instA' svcA_pending) = leaderID svcA_pending
   \<and> notifyLeader (service_maybeSetLeader instA' svcA_pending)"
  by (simp add: service_maybeSetLeader_def service_AddInstance_def newService_def Let_def
        svcA_pending_def instA_def instA'_def)

section \<open>Mutations of the registry\<close>

text \<open>
  C2. On a registry that does not have the name, \<^verbatim>\<open>RemoveService\<close> reads the instance map
  through the nil pointer the lookup returned, and \<^verbatim>\<open>SetService\<close> with a nil slice calls
  \<^verbatim>\<open>BroadcastLeader\<close> on it: both panic.
\<close>

theorem unknown_service_panics:
  "State_RemoveService [] ''web'' NewState = Inl NilPointerDereference
   \<and> State_SetService [] [] ''web'' None NewState = Inl NilPointerDereference"
  by (simp add: State_RemoveService_def State_SetService_def NewState_def andThen_def
        State_broadcastLeader_def)

lemma range_entries_order:
  "set ks \<subseteq> dom m \<Longrightarrow> range_entries ks m = map (\<lambda>k. (k, the (m k))) ks"
  by (induction ks) (auto simp: range_entries_def)

lemma range_values_order:
  "range_order ks m \<Longrightarrow> range_values ks m = map (\<lambda>k. the (m k)) ks"
  by (simp add: range_values_def range_order_def range_entries_order comp_def)

lemma instances_maybeSetLeader [simp]:
  "instances (service_maybeSetLeader inst s) = instances s"
  by (simp add: service_maybeSetLeader_def)

lemma instances_foldl_maybeSetLeader [simp]:
  "instances (foldl (\<lambda>s' inst. service_maybeSetLeader inst s') s xs) = instances s"
  by (induction xs arbitrary: s) simp_all

lemma instances_maybePickLeader [simp]:
  "instances (service_maybePickLeader ks s) = instances s"
  by (simp add: service_maybePickLeader_def)

lemma instances_SetInstances [simp]:
  "instances (service_SetInstances ks data s) = data"
  by (simp add: service_SetInstances_def Let_def)

lemma newData_of_snoc: "newData_of (xs @ [x]) = (newData_of xs)(ID x \<mapsto> x)"
  by (simp add: newData_of_def)

lemma newData_of_find: "newData_of xs k = List.find (\<lambda>i. ID i = k) (rev xs)"
proof (induction xs rule: rev_induct)
  case Nil
  show ?case by (simp add: newData_of_def)
next
  case (snoc x xs)
  then show ?case by (simp add: newData_of_snoc)
qed

lemma mapEqual_refl: "mapEqual x x"
  by (simp add: mapEqual_def)

lemma EventKind_distinct:
  "EventKindLeader \<noteq> EventKindUp" "EventKindLeader \<noteq> EventKindUpdate"
  "EventKindDown \<noteq> EventKindUp" "EventKindDown \<noteq> EventKindUpdate"
  "EventKindUp \<noteq> EventKindUpdate" "EventKindLeader \<noteq> EventKindDown"
  by (simp_all add: EventKindLeader_def EventKindUp_def EventKindUpdate_def EventKindDown_def)

lemma broadcastLeader_events:
  assumes "services s name = Some svc"
  shows "\<exists>s' evs. State_broadcastLeader name s = Inr (s', evs)
           \<and> services s' = (services s)(name \<mapsto> svc\<lparr>notifyLeader := False\<rparr>)
           \<and> (\<forall>e \<in> set evs. Kind e = EventKindLeader)"
  using assms
  by (auto simp: State_broadcastLeader_def service_BroadcastLeader_def split: option.splits)

text \<open>
  C1, as the code has it. \<^verbatim>\<open>SetService\<close> with a nil slice on a name the registry has
  deletes the entry and emits one \<^verbatim>\<open>down\<close> event for each instance that was registered
  (the search for deleted instances finds none of them in the nil new map), and no other
  event.
\<close>

theorem SetService_nil_emits_down:
  assumes "services s name = Some svc" and "range_order ks_old (instances svc)"
  shows "State_SetService ks_new ks_old name None s =
           Inr (s\<lparr>services := (services s)(name := None)\<rparr>,
                map (\<lambda>k. \<lparr>Service = name, Kind = EventKindDown, Instance = the (instances svc k)\<rparr>)
                  ks_old)"
  using assms
  by (simp add: State_SetService_def andThen_def range_entries_order range_order_def comp_def)

theorem SetService_nil_emits_down_witness:
  "services stateA ''web'' = Some svcA \<and> range_order [''a1''] (instances svcA)
   \<and> instances svcA \<noteq> Map.empty
   \<and> State_SetService [] [''a1''] ''web'' None stateA =
       Inr (stateA\<lparr>services := (services stateA)(''web'' := None)\<rparr>,
            [\<lparr>Service = ''web'', Kind = EventKindDown, Instance = instA\<rparr>])"
proof -
  have h1: "services stateA ''web'' = Some svcA" by (simp add: stateA_def)
  have h2: "range_order [''a1''] (instances svcA)" by (simp add: range_order_def svcA_def)
  have h3: "instances svcA ''a1'' = Some instA" by (simp add: svcA_def)
  then have "instances svcA \<noteq> Map.empty" by (metis option.distinct(1))
  then show ?thesis
    using h1 h2 h3 SetService_nil_emits_down [OF h1 h2, of "[]"] by simp
qed

text \<open>
  C1, as the claim has it, fails: with one instance registered under \<open>web\<close> (by
  \<^verbatim>\<open>AddInstance\<close> on a new state), the call emits a \<^verbatim>\<open>down\<close> event for it.
\<close>

theorem SetService_nil_counterexample:
  "State_AddInstance ''web'' instA NewState =
     Inr (stateA, [\<lparr>Service = ''web'', Kind = EventKindUp, Instance = instA\<rparr>,
                   \<lparr>Service = ''web'', Kind = EventKindLeader, Instance = instA\<rparr>])
   \<and> State_SetService [] [''a1''] ''web'' None stateA =
       Inr (NewState, [\<lparr>Service = ''web'', Kind = EventKindDown, Instance = instA\<rparr>])"
  by (simp add: State_SetService_def State_AddInstance_def State_broadcastLeader_def
        service_AddInstance_def service_maybeSetLeader_def service_BroadcastLeader_def
        eventKindUpdate_def newService_def NewState_def andThen_def Let_def
        stateA_def svcA_def instA_def range_entries_def)

text \<open>
  C6, as the code has it. An instance \<open>A\<close> is registered under the name, and \<open>A'\<close> is
  handed to \<^verbatim>\<open>AddInstance\<close> with the ID, address, proto and metadata of \<open>A\<close>, whatever
  its index: no \<^verbatim>\<open>up\<close> and no \<^verbatim>\<open>update\<close> event is emitted. The previous instance is
  looked up under \<^verbatim>\<open>inst.ID\<close>, so the ID of \<open>A'\<close> has to be that of \<open>A\<close>; it is for two
  valid instances that agree on proto and address.
\<close>

theorem AddInstance_same_but_Index:
  assumes "services s name = Some svc" and "instances svc (ID A) = Some A"
    and "ID A' = ID A" and "Addr A' = Addr A" and "Proto A' = Proto A" and "Meta A' = Meta A"
  shows "\<exists>s' evs. State_AddInstance name A' s = Inr (s', evs)
           \<and> (\<forall>e \<in> set evs. Kind e \<noteq> EventKindUp \<and> Kind e \<noteq> EventKindUpdate)"
proof -
  let ?svc' = "snd (service_AddInstance A' svc)"
  let ?s1 = "s\<lparr>services := (services s)(name \<mapsto> ?svc')\<rparr>"
  have eq: "Instance_Equal A' A"
    using assms by (simp add: Instance_Equal_def mapEqual_refl)
  have "services ?s1 name = Some ?svc'" by simp
  from broadcastLeader_events [OF this] obtain s' evs where
    b: "State_broadcastLeader name ?s1 = Inr (s', evs)"
    and k: "\<forall>e \<in> set evs. Kind e = EventKindLeader"
    by blast
  have "State_AddInstance name A' s = Inr (s', evs)"
    using assms eq b by (simp add: State_AddInstance_def service_AddInstance_def Let_def andThen_def)
  with k show ?thesis by (auto simp: EventKind_distinct)
qed

theorem AddInstance_same_but_Index_witness:
  "services stateA ''web'' = Some svcA \<and> instances svcA (ID instA) = Some instA
   \<and> ID instA' = ID instA \<and> Addr instA' = Addr instA \<and> Proto instA' = Proto instA
   \<and> Meta instA' = Meta instA \<and> Index instA' \<noteq> Index instA
   \<and> (\<exists>s' evs. State_AddInstance ''web'' instA' stateA = Inr (s', evs)
         \<and> (\<forall>e \<in> set evs. Kind e \<noteq> EventKindUp \<and> Kind e \<noteq> EventKindUpdate))"
proof -
  have h1: "services stateA ''web'' = Some svcA" by (simp add: stateA_def)
  have h2: "instances svcA (ID instA) = Some instA" by (simp add: svcA_def instA_def)
  have h3: "ID instA' = ID instA" "Addr instA' = Addr instA" "Proto instA' = Proto instA"
    "Meta instA' = Meta instA" "Index instA' \<noteq> Index instA"
    by (simp_all add: instA_def instA'_def)
  show ?thesis
    using h1 h2 h3 AddInstance_same_but_Index [OF h1 h2 h3(1) h3(2) h3(3) h3(4)] by simp
qed

text \<open>
  C6, as the claim has it, fails: \<^verbatim>\<open>AddInstance\<close> does not validate the instance, and an
  instance with the address, proto and metadata of the registered \<open>a1\<close> but another ID
  finds no previous instance under its ID and is announced with an \<^verbatim>\<open>up\<close> event.
\<close>

theorem AddInstance_other_ID_counterexample:
  "services stateA ''web'' = Some svcA
   \<and> instances svcA (ID instA) = Some instA
   \<and> Addr instZ = Addr instA \<and> Proto instZ = Proto instA \<and> Meta instZ = Meta instA
   \<and> Index instZ \<noteq> Index instA
   \<and> State_AddInstance ''web'' instZ stateA =
       Inr (stateA\<lparr>services := (services stateA)(''web'' \<mapsto>
                     svcA\<lparr>instances := (instances svcA)(''z9'' \<mapsto> instZ)\<rparr>)\<rparr>,
            [\<lparr>Service = ''web'', Kind = EventKindUp, Instance = instZ\<rparr>])"
  by (simp add: State_AddInstance_def State_broadcastLeader_def service_AddInstance_def
        service_maybeSetLeader_def service_BroadcastLeader_def eventKindUpdate_def andThen_def
        Let_def stateA_def svcA_def instA_def instZ_def)

text \<open>
  C9. \<^verbatim>\<open>SetService\<close> with a list, on a name the registry does not have: one \<^verbatim>\<open>up\<close>
  event is emitted for each element of the list, in the order of the list, followed only by
  what the leader broadcast emits; the new service stores under each ID the last element
  of the list that has it. An ID that occurs twice is stored once and announced twice.
\<close>

theorem SetService_new_duplicates:
  assumes "services s name = None"
  shows "\<exists>s' svc ld. State_SetService ks_new ks_old name (Some xs) s =
             Inr (s', map (\<lambda>inst. \<lparr>Service = name, Kind = EventKindUp, Instance = inst\<rparr>) xs @ ld)
           \<and> (\<forall>e \<in> set ld. Kind e = EventKindLeader)
           \<and> services s' name = Some svc
           \<and> (\<forall>k. instances svc k = List.find (\<lambda>i. ID i = k) (rev xs))"
proof -
  let ?svc = "service_SetInstances ks_new (newData_of xs) newService"
  let ?s1 = "s\<lparr>services := (services s)(name \<mapsto> ?svc)\<rparr>"
  have "services ?s1 name = Some ?svc" by simp
  from broadcastLeader_events [OF this] obtain s' ld where
    b: "State_broadcastLeader name ?s1 = Inr (s', ld)"
    and sv: "services s' = (services ?s1)(name \<mapsto> ?svc\<lparr>notifyLeader := False\<rparr>)"
    and k: "\<forall>e \<in> set ld. Kind e = EventKindLeader"
    by blast
  have "State_SetService ks_new ks_old name (Some xs) s =
          Inr (s', map (\<lambda>inst. \<lparr>Service = name, Kind = EventKindUp, Instance = inst\<rparr>) xs @ ld)"
    using assms b by (simp add: State_SetService_def Let_def andThen_def)
  moreover have "services s' name = Some (?svc\<lparr>notifyLeader := False\<rparr>)"
    using sv by simp
  moreover have
    "\<forall>k. instances (?svc\<lparr>notifyLeader := False\<rparr>) k = List.find (\<lambda>i. ID i = k) (rev xs)"
    by (simp add: newData_of_find)
  ultimately show ?thesis using k by blast
qed

theorem SetService_new_duplicates_witness:
  "services NewState ''web'' = None \<and> ID instA = ID instA' \<and> instA \<noteq> instA'
   \<and> (\<exists>s' svc ld. State_SetService [''a1''] [] ''web'' (Some [instA, instA']) NewState =
          Inr (s', [\<lparr>Service = ''web'', Kind = EventKindUp, Instance = instA\<rparr>,
                    \<lparr>Service = ''web'', Kind = EventKindUp, Instance = instA'\<rparr>] @ ld)
        \<and> (\<forall>e \<in> set ld. Kind e = EventKindLeader)
        \<and> services s' ''web'' = Some svc
        \<and> instances svc ''a1'' = Some instA' \<and> dom (instances svc) = {''a1''})"
proof -
  have h: "services NewState ''web'' = None" by (simp add: NewState_def)
  from SetService_new_duplicates [OF h, of "[''a1'']" "[]" "[instA, instA']"]
  obtain s' svc ld where
    r: "State_SetService [''a1''] [] ''web'' (Some [instA, instA']) NewState =
          Inr (s', [\<lparr>Service = ''web'', Kind = EventKindUp, Instance = instA\<rparr>,
                    \<lparr>Service = ''web'', Kind = EventKindUp, Instance = instA'\<rparr>] @ ld)"
    and k: "\<forall>e \<in> set ld. Kind e = EventKindLeader"
    and sv: "services s' ''web'' = Some svc"
    and f: "\<forall>k. instances svc k = List.find (\<lambda>i. ID i = k) (rev [instA, instA'])"
    by auto
  have a: "instances svc ''a1'' = Some instA'"
    using f by (simp add: instA_def instA'_def)
  have d: "dom (instances svc) = {''a1''}"
    using f by (auto simp: dom_def instA_def instA'_def split: if_splits)
  have i: "ID instA = ID instA'" "instA \<noteq> instA'" by (simp_all add: instA_def instA'_def)
  show ?thesis using h i r k sv a d by blast
qed

section \<open>Subscriptions\<close>

text \<open>
  C7. \<open>ks\<close> is the order in which \<^verbatim>\<open>getLocked\<close> visits the instances of the service:
  every registered ID once. When \<^verbatim>\<open>sendCurrent\<close> is true and the mask meets
  \<^verbatim>\<open>up\<close>, \<^verbatim>\<open>update\<close> or \<^verbatim>\<open>leader\<close>, \<^verbatim>\<open>Subscribe\<close> sends on the channel one \<^verbatim>\<open>up\<close>
  event for each registered instance, if the mask meets \<^verbatim>\<open>up\<close> or \<^verbatim>\<open>update\<close>, and then
  one \<^verbatim>\<open>leader\<close> event, if the mask has \<^verbatim>\<open>leader\<close> and the service has a leader;
  otherwise it sends nothing.
\<close>

theorem Subscribe_snapshot:
  assumes "range_order ks (instances_of s name)"
  shows "\<exists>s'. State_Subscribe ks name sendCurrent kindMask chan s =
     Inr (s',
       if sendCurrent \<and> kindMask AND (EventKindUp OR EventKindUpdate OR EventKindLeader) \<noteq> 0
       then (if kindMask AND (EventKindUp OR EventKindUpdate) \<noteq> 0
             then map (\<lambda>k. \<lparr>Service = name, Kind = EventKindUp, Instance = the (instances_of s name k)\<rparr>) ks
             else [])
          @ (if kindMask AND EventKindLeader \<noteq> 0 \<and> State_GetLeader name s \<noteq> None
             then [\<lparr>Service = name, Kind = EventKindLeader, Instance = the (State_GetLeader name s)\<rparr>]
             else [])
       else [])"
  using assms
  by (auto simp: State_Subscribe_def State_getLocked_def Let_def instances_of_def State_GetLeader_def
       range_values_order range_order_def service_Leader_def split: option.splits)

theorem Subscribe_snapshot_witness:
  "range_order [''a1''] (instances_of stateA ''web'')
   \<and> (\<exists>s'. State_Subscribe [''a1''] ''web'' True EventKindAll 0 stateA =
         Inr (s', [\<lparr>Service = ''web'', Kind = EventKindUp, Instance = instA\<rparr>,
                   \<lparr>Service = ''web'', Kind = EventKindLeader, Instance = instA\<rparr>]))
   \<and> (\<exists>s'. State_Subscribe [''a1''] ''web'' True EventKindDown 0 stateA = Inr (s', []))
   \<and> (\<exists>s'. State_Subscribe [''a1''] ''web'' False EventKindAll 0 stateA = Inr (s', []))
   \<and> (\<exists>s'. State_Subscribe [''a1''] ''web'' True EventKindLeader 0 stateA =
         Inr (s', [\<lparr>Service = ''web'', Kind = EventKindLeader, Instance = instA\<rparr>]))"
proof -
  have h: "range_order [''a1''] (instances_of stateA ''web'')"
    by (simp add: range_order_def instances_of_def stateA_def svcA_def)
  have i: "instances_of stateA ''web'' ''a1'' = Some instA"
    by (simp add: instances_of_def stateA_def svcA_def)
  have l: "State_GetLeader ''web'' stateA = Some instA"
    by (simp add: State_GetLeader_def service_Leader_def stateA_def svcA_def)
  have m: "EventKindAll AND (EventKindUp OR EventKindUpdate OR EventKindLeader) \<noteq> 0"
    "EventKindAll AND (EventKindUp OR EventKindUpdate) \<noteq> 0"
    "EventKindAll AND EventKindLeader \<noteq> 0"
    "EventKindDown AND (EventKindUp OR EventKindUpdate OR EventKindLeader) = 0"
    "EventKindLeader AND (EventKindUp OR EventKindUpdate OR EventKindLeader) \<noteq> 0"
    "EventKindLeader AND (EventKindUp OR EventKindUpdate) = 0"
    "EventKindLeader AND EventKindLeader \<noteq> 0"
    by (simp_all add: EventKindAll_def EventKindUp_def EventKindUpdate_def EventKindLeader_def
          EventKindDown_def)
  show ?thesis
    using h i l m
      Subscribe_snapshot [OF h, of True EventKindAll 0]
      Subscribe_snapshot [OF h, of True EventKindDown 0]
      Subscribe_snapshot [OF h, of False EventKindAll 0]
      Subscribe_snapshot [OF h, of True EventKindLeader 0]
    by simp
qed

text \<open>
  C10. On a name the registry does not have, \<^verbatim>\<open>Subscribe\<close> with \<^verbatim>\<open>sendCurrent\<close> returns
  without a panic and sends nothing: \<^verbatim>\<open>getLocked\<close> returns no instance and \<^verbatim>\<open>Leader\<close>,
  called on the nil service, returns nil.
\<close>

theorem Subscribe_unknown_service:
  assumes "services s name = None"
  shows "(\<exists>s'. State_Subscribe ks name True kindMask chan s = Inr (s', []))
         \<and> State_getLocked ks name s = []
         \<and> service_Leader (services s name) = None"
  using assms by (simp add: State_Subscribe_def State_getLocked_def service_Leader_def Let_def)

theorem Subscribe_unknown_service_witness:
  "services NewState ''web'' = None
   \<and> (\<exists>s'. State_Subscribe [] ''web'' True EventKindAll 0 NewState = Inr (s', []))
   \<and> State_getLocked [] ''web'' NewState = []
   \<and> service_Leader (services NewState ''web'') = None"
proof -
  have h: "services NewState ''web'' = None" by (simp add: NewState_def)
  show ?thesis using h Subscribe_unknown_service [OF h, of "[]" EventKindAll 0] by simp
qed

section \<open>Leader election over sequences of mutations\<close>

lemma set_range_values:
  "range_order ks m \<Longrightarrow> set (range_values ks m) = ran m"
  by (force simp: range_values_order range_order_def ran_def dom_def image_iff)

lemma range_values_Nil:
  "range_order ks m \<Longrightarrow> range_values ks m = [] \<longleftrightarrow> m = Map.empty"
  by (auto simp: range_values_order range_order_def dest: sym)

lemma keyed_ran: "keyed_by_ID m \<Longrightarrow> i \<in> ran m \<Longrightarrow> m (ID i) = Some i"
  by (auto simp: keyed_by_ID_def ran_def)

lemma keyed_upd: "keyed_by_ID m \<Longrightarrow> keyed_by_ID (m(ID inst \<mapsto> inst))"
  by (simp add: keyed_by_ID_def)

lemma keyed_del: "keyed_by_ID m \<Longrightarrow> keyed_by_ID (m(k := None))"
  by (simp add: keyed_by_ID_def)

lemma keyed_empty: "keyed_by_ID Map.empty"
  by (simp add: keyed_by_ID_def)

text \<open>The loop of \<^verbatim>\<open>maybePickLeader\<close>, from any service and over any list of instances.\<close>

lemma fold_leaderID_cases:
  "leaderID (foldl (\<lambda>s' inst. service_maybeSetLeader inst s') s xs) = leaderID s
   \<or> leaderID (foldl (\<lambda>s' inst. service_maybeSetLeader inst s') s xs) \<in> ID ` set xs"
proof (induction xs arbitrary: s)
  case Nil
  show ?case by simp
next
  case (Cons x xs)
  from Cons.IH [of "service_maybeSetLeader x s"] show ?case
    by (auto simp: service_maybeSetLeader_def split: if_splits)
qed

lemma fold_leaderID_unset:
  assumes "leaderIndex s = 0" and "xs \<noteq> []"
  shows "leaderID (foldl (\<lambda>s' inst. service_maybeSetLeader inst s') s xs) \<in> ID ` set xs"
proof (cases xs)
  case Nil
  with assms show ?thesis by simp
next
  case (Cons x xs')
  have "leaderID (service_maybeSetLeader x s) = ID x"
    using assms by (simp add: service_maybeSetLeader_def)
  with fold_leaderID_cases [of "service_maybeSetLeader x s" xs'] Cons show ?thesis
    by auto
qed

lemma fold_min_set:
  assumes "\<forall>i \<in> set xs. 0 < Index i" and "leaderIndex s \<noteq> 0"
  shows "leaderIndex (foldl (\<lambda>s' inst. service_maybeSetLeader inst s') s xs) \<noteq> 0
       \<and> leaderIndex (foldl (\<lambda>s' inst. service_maybeSetLeader inst s') s xs) \<le> leaderIndex s
       \<and> (\<forall>i \<in> set xs. leaderIndex (foldl (\<lambda>s' inst. service_maybeSetLeader inst s') s xs) \<le> Index i)
       \<and> ((leaderID (foldl (\<lambda>s' inst. service_maybeSetLeader inst s') s xs) = leaderID s
            \<and> leaderIndex (foldl (\<lambda>s' inst. service_maybeSetLeader inst s') s xs) = leaderIndex s)
          \<or> (\<exists>i \<in> set xs. leaderID (foldl (\<lambda>s' inst. service_maybeSetLeader inst s') s xs) = ID i
                \<and> leaderIndex (foldl (\<lambda>s' inst. service_maybeSetLeader inst s') s xs) = Index i))"
  using assms
proof (induction xs arbitrary: s)
  case Nil
  then show ?case by simp
next
  case (Cons x xs)
  let ?s1 = "service_maybeSetLeader x s"
  have x: "0 < Index x" using Cons.prems by simp
  have s1: "leaderIndex ?s1 \<noteq> 0" "leaderIndex ?s1 \<le> leaderIndex s" "leaderIndex ?s1 \<le> Index x"
    "(leaderID ?s1 = leaderID s \<and> leaderIndex ?s1 = leaderIndex s)
       \<or> (leaderID ?s1 = ID x \<and> leaderIndex ?s1 = Index x)"
    using x Cons.prems(2) by (auto simp: service_maybeSetLeader_def)
  have "\<forall>i \<in> set xs. 0 < Index i" using Cons.prems by simp
  from Cons.IH [OF this s1(1)] s1 show ?case
    by (auto simp del: foldl_Cons simp: foldl_Cons [of _ s x xs] intro: order_trans)
qed


lemma fold_min_unset:
  assumes "\<forall>i \<in> set xs. 0 < Index i" and "leaderIndex s = 0" and "xs \<noteq> []"
  shows "leaderIndex (foldl (\<lambda>s' inst. service_maybeSetLeader inst s') s xs) \<noteq> 0
       \<and> (\<forall>i \<in> set xs. leaderIndex (foldl (\<lambda>s' inst. service_maybeSetLeader inst s') s xs) \<le> Index i)
       \<and> (\<exists>i \<in> set xs. leaderID (foldl (\<lambda>s' inst. service_maybeSetLeader inst s') s xs) = ID i
             \<and> leaderIndex (foldl (\<lambda>s' inst. service_maybeSetLeader inst s') s xs) = Index i)"
proof (cases xs)
  case Nil
  with assms show ?thesis by simp
next
  case (Cons x xs')
  let ?s1 = "service_maybeSetLeader x s"
  have x: "0 < Index x" and xs': "\<forall>i \<in> set xs'. 0 < Index i"
    using assms(1) Cons by simp_all
  have s1: "leaderID ?s1 = ID x" "leaderIndex ?s1 = Index x"
    using assms(2) by (simp_all add: service_maybeSetLeader_def)
  have "leaderIndex ?s1 \<noteq> 0" using x s1 by simp
  from fold_min_set [OF xs' this] s1 Cons show ?thesis
    by auto
qed

text \<open>What \<^verbatim>\<open>maybePickLeader\<close> leaves behind, for every order of the visit.\<close>

lemma pick_leader_inv:
  assumes "range_order ks (instances s)" and "keyed_by_ID (instances s)"
    and "instances s \<noteq> Map.empty"
    and "leaderIndex s = 0 \<or> leaderID s \<in> dom (instances s)"
  shows "leaderID (service_maybePickLeader ks s) \<in> dom (instances s)"
proof -
  let ?xs = "range_values ks (instances s)"
  have set: "set ?xs = ran (instances s)" using assms(1) by (rule set_range_values)
  have ne: "?xs \<noteq> []" using assms(1,3) by (simp add: range_values_Nil)
  have ids: "ID ` set ?xs \<subseteq> dom (instances s)"
    using set keyed_ran [OF assms(2)] by auto
  show ?thesis
  proof (cases "leaderIndex s = 0")
    case True
    from fold_leaderID_unset [OF True ne] ids show ?thesis
      by (auto simp: service_maybePickLeader_def)
  next
    case False
    with assms(4) have "leaderID s \<in> dom (instances s)" by simp
    with fold_leaderID_cases [of s ?xs] ids show ?thesis
      by (auto simp: service_maybePickLeader_def)
  qed
qed

lemma pick_empty:
  assumes "instances s = Map.empty"
  shows "service_maybePickLeader ks s = s"
proof -
  have "range_values ks (instances s) = []"
    using assms by (induction ks) (simp_all add: range_values_def range_entries_def)
  then show ?thesis by (simp add: service_maybePickLeader_def)
qed

lemma pick_min:
  assumes ro: "range_order ks (instances s)" and keyed: "keyed_by_ID (instances s)"
    and pos: "\<forall>i \<in> ran (instances s). 0 < Index i"
    and ne: "instances s \<noteq> Map.empty"
    and cur: "leaderIndex s = 0
        \<or> (\<exists>l. instances s (leaderID s) = Some l \<and> leaderIndex s = Index l)"
  shows "\<exists>l. instances s (leaderID (service_maybePickLeader ks s)) = Some l
           \<and> leaderIndex (service_maybePickLeader ks s) = Index l
           \<and> (\<forall>i \<in> ran (instances s). Index l \<le> Index i)"
proof -
  let ?xs = "range_values ks (instances s)"
  let ?s' = "foldl (\<lambda>s' inst. service_maybeSetLeader inst s') s ?xs"
  have set: "set ?xs = ran (instances s)" using ro by (rule set_range_values)
  have nel: "?xs \<noteq> []" using ro ne by (simp add: range_values_Nil)
  have posl: "\<forall>i \<in> set ?xs. 0 < Index i" using pos set by simp
  show ?thesis
  proof (cases "leaderIndex s = 0")
    case True
    from fold_min_unset [OF posl True nel] obtain i where
      i: "i \<in> set ?xs" "leaderID ?s' = ID i" "leaderIndex ?s' = Index i"
      and le: "\<forall>j \<in> set ?xs. leaderIndex ?s' \<le> Index j"
      by blast
    have "instances s (ID i) = Some i" using i(1) set keyed_ran [OF keyed] by simp
    with i le set show ?thesis by (auto simp: service_maybePickLeader_def)
  next
    case False
    with cur obtain l0 where l0: "instances s (leaderID s) = Some l0" "leaderIndex s = Index l0"
      by blast
    from fold_min_set [OF posl False]
    have le: "\<forall>j \<in> set ?xs. leaderIndex ?s' \<le> Index j"
      and c: "(leaderID ?s' = leaderID s \<and> leaderIndex ?s' = leaderIndex s)
          \<or> (\<exists>i \<in> set ?xs. leaderID ?s' = ID i \<and> leaderIndex ?s' = Index i)"
      by blast+
    from c show ?thesis
    proof
      assume "leaderID ?s' = leaderID s \<and> leaderIndex ?s' = leaderIndex s"
      with l0 le set show ?thesis by (auto simp: service_maybePickLeader_def)
    next
      assume "\<exists>i \<in> set ?xs. leaderID ?s' = ID i \<and> leaderIndex ?s' = Index i"
      then obtain i where i: "i \<in> set ?xs" "leaderID ?s' = ID i" "leaderIndex ?s' = Index i"
        by blast
      have "instances s (ID i) = Some i" using i(1) set keyed_ran [OF keyed] by simp
      with i le set show ?thesis by (auto simp: service_maybePickLeader_def)
    qed
  qed
qed

subsection \<open>The leader is registered\<close>

lemma leader_inv_new: "leader_inv newService"
  by (simp add: leader_inv_def newService_def keyed_empty)

lemma leader_inv_add:
  assumes "leader_inv s"
  shows "leader_inv (snd (service_AddInstance inst s))"
proof -
  have k: "keyed_by_ID ((instances s)(ID inst \<mapsto> inst))"
    using assms by (simp add: leader_inv_def keyed_upd)
  show ?thesis
  proof (cases "instances s = Map.empty")
    case True
    with assms have "leaderIndex s = 0" by (simp add: leader_inv_def)
    with k show ?thesis
      by (simp add: leader_inv_def service_AddInstance_def service_maybeSetLeader_def Let_def)
  next
    case False
    with assms have "leaderID s \<in> dom (instances s)" by (simp add: leader_inv_def)
    with k show ?thesis
      by (auto simp: leader_inv_def service_AddInstance_def service_maybeSetLeader_def Let_def)
  qed
qed

lemma leader_inv_remove:
  assumes inv: "leader_inv s" and ro: "range_order ks ((instances s)(iid := None))"
  shows "leader_inv (snd (service_RemoveInstance ks iid s))"
proof (cases "instances s iid")
  case None
  with inv show ?thesis by (simp add: service_RemoveInstance_def)
next
  case (Some inst)
  let ?m' = "(instances s)(iid := None)"
  have keyed: "keyed_by_ID (instances s)" using inv by (simp add: leader_inv_def)
  then have id: "ID inst = iid" using Some by (simp add: keyed_by_ID_def)
  have k': "keyed_by_ID ?m'" using keyed by (rule keyed_del)
  have ne: "instances s \<noteq> Map.empty" using Some by auto
  with inv have ld: "leaderID s \<in> dom (instances s)" by (simp add: leader_inv_def)
  show ?thesis
  proof (cases "iid = leaderID s")
    case True
    let ?s2 = "s\<lparr>instances := ?m', leaderID := [], leaderIndex := 0\<rparr>"
    have r: "snd (service_RemoveInstance ks iid s) = service_maybePickLeader ks ?s2"
      using Some id True by (simp add: service_RemoveInstance_def Let_def)
    show ?thesis
    proof (cases "?m' = Map.empty")
      case True
      then have "service_maybePickLeader ks ?s2 = ?s2" by (simp add: pick_empty)
      with r True k' show ?thesis by (simp add: leader_inv_def)
    next
      case False
      have "leaderID (service_maybePickLeader ks ?s2) \<in> dom (instances ?s2)"
        by (rule pick_leader_inv) (use ro k' False in simp_all)
      with r False k' show ?thesis by (simp add: leader_inv_def)
    qed
  next
    case False
    then have r: "snd (service_RemoveInstance ks iid s) = s\<lparr>instances := ?m'\<rparr>"
      using Some id by (simp add: service_RemoveInstance_def Let_def)
    have "leaderID s \<in> dom ?m'" using ld False by auto
    then have ld': "leaderID s \<in> dom ?m'" .
    then have "?m' \<noteq> Map.empty" by (metis dom_empty empty_iff)
    with r k' ld' show ?thesis by (simp add: leader_inv_def)
  qed
qed

lemma leader_inv_set:
  assumes keyed: "keyed_by_ID data" and ro: "range_order ks data"
  shows "leader_inv (service_SetInstances ks data s)"
proof (cases "data = Map.empty")
  case True
  then show ?thesis
    by (simp add: service_SetInstances_def Let_def pick_empty leader_inv_def keyed_empty)
next
  case False
  let ?s1 = "(if data (leaderID s) = None then s\<lparr>leaderID := [], leaderIndex := 0\<rparr> else s)
               \<lparr>instances := data\<rparr>"
  have r: "service_SetInstances ks data s = service_maybePickLeader ks ?s1"
    by (simp add: service_SetInstances_def Let_def)
  have "leaderID (service_maybePickLeader ks ?s1) \<in> dom (instances ?s1)"
    by (rule pick_leader_inv) (use ro keyed False in \<open>auto split: if_splits\<close>)
  with r keyed False show ?thesis by (simp add: leader_inv_def)
qed

lemma leader_inv_broadcast:
  "leader_inv s \<Longrightarrow> leader_inv (snd (service_BroadcastLeader s))"
  by (simp add: leader_inv_def service_BroadcastLeader_def keyed_empty)

lemma reach_pos_leader_inv: "reach_pos s \<Longrightarrow> leader_inv s"
proof (induction rule: reach_pos.induct)
  case pos_new
  show ?case by (rule leader_inv_new)
next
  case (pos_add s inst)
  then show ?case by (simp add: leader_inv_add)
next
  case (pos_remove s ks iid)
  then show ?case by (simp add: leader_inv_remove)
next
  case (pos_set s data ks)
  then show ?case by (simp add: leader_inv_set)
next
  case (pos_broadcast s)
  then show ?case by (simp add: leader_inv_broadcast)
qed

text \<open>
  C4. After any sequence of mutations of a service in which every instance handed in has
  a strictly positive index, \<^verbatim>\<open>Leader\<close> returns nil exactly when the instance map of the
  service is empty.
\<close>

theorem Leader_none_iff_empty:
  assumes "reach_pos s"
  shows "service_Leader (Some s) = None \<longleftrightarrow> instances s = Map.empty"
proof -
  have "leader_inv s" using assms by (rule reach_pos_leader_inv)
  then show ?thesis
    by (auto simp: service_Leader_def leader_inv_def split: if_splits)
qed

theorem Leader_none_iff_empty_witness:
  "reach_pos (snd (service_AddInstance instA newService))
   \<and> service_Leader (Some (snd (service_AddInstance instA newService))) = Some instA
   \<and> instances (snd (service_AddInstance instA newService)) \<noteq> Map.empty
   \<and> reach_pos (snd (service_RemoveInstance [] ''a1'' (snd (service_AddInstance instA newService))))
   \<and> service_Leader (Some (snd (service_RemoveInstance [] ''a1'' (snd (service_AddInstance instA newService))))) = None
   \<and> instances (snd (service_RemoveInstance [] ''a1'' (snd (service_AddInstance instA newService)))) = Map.empty
   \<and> reach_pos (service_SetInstances [''b2''] [''b2'' \<mapsto> instB] (snd (service_AddInstance instA newService)))
   \<and> service_Leader (Some (service_SetInstances [''b2''] [''b2'' \<mapsto> instB] (snd (service_AddInstance instA newService)))) = Some instB"
proof -
  let ?s1 = "snd (service_AddInstance instA newService)"
  let ?s2 = "snd (service_RemoveInstance [] ''a1'' ?s1)"
  let ?s3 = "service_SetInstances [''b2''] [''b2'' \<mapsto> instB] ?s1"
  have i1: "instances ?s1 = [''a1'' \<mapsto> instA]"
    by (simp add: service_AddInstance_def Let_def newService_def instA_def)
  have r1: "reach_pos ?s1"
    by (rule pos_add [OF pos_new]) (simp add: instA_def)
  have o2: "range_order [] ((instances ?s1)(''a1'' := None))"
    unfolding i1 by (simp add: range_order_def)
  have r2: "reach_pos ?s2"
    by (rule pos_remove [OF r1 o2])
  have r3: "reach_pos ?s3"
    by (rule pos_set [OF r1]) (auto simp: keyed_by_ID_def range_order_def instB_def ran_def split: if_splits)
  have l1: "service_Leader (Some ?s1) = Some instA"
    by (simp add: service_Leader_def service_AddInstance_def service_maybeSetLeader_def Let_def
          newService_def instA_def)
  have e2: "instances ?s2 = Map.empty"
    by (simp add: service_RemoveInstance_def Let_def i1 service_AddInstance_def service_maybeSetLeader_def
        newService_def instA_def service_maybePickLeader_def range_values_def range_entries_def)
  have l3: "service_Leader (Some ?s3) = Some instB"
    by (simp add: service_Leader_def service_SetInstances_def Let_def service_AddInstance_def
        service_maybeSetLeader_def newService_def instA_def instB_def service_maybePickLeader_def
        range_values_def range_entries_def)
  show ?thesis
    using r1 r2 r3 l1 e2 l3 Leader_none_iff_empty [OF r1] Leader_none_iff_empty [OF r2]
      Leader_none_iff_empty [OF r3]
    by simp
qed

subsection \<open>The leader has the smallest index\<close>

lemma unique_del: "unique_indices m \<Longrightarrow> unique_indices (m(k := None))"
  by (simp add: unique_indices_def)

lemma ran_del_subset: "ran (m(k := None)) \<subseteq> ran m"
  by (auto simp: ran_def split: if_splits)

lemma min_inv_new: "min_inv newService"
  by (simp add: min_inv_def newService_def keyed_empty unique_indices_def)

lemma min_inv_add:
  assumes inv: "min_inv s" and pos: "0 < Index inst" and fresh: "fresh_index (instances s) inst"
  shows "min_inv (snd (service_AddInstance inst s))"
proof -
  let ?m = "instances s"
  let ?m' = "?m(ID inst \<mapsto> inst)"
  let ?s' = "snd (service_AddInstance inst s)"
  have m': "instances ?s' = ?m'" by (simp add: service_AddInstance_def Let_def)
  have keyed: "keyed_by_ID ?m'" using inv by (simp add: min_inv_def keyed_upd)
  have ran': "\<And>i. i \<in> ran ?m' \<Longrightarrow> i = inst \<or> (\<exists>k. k \<noteq> ID inst \<and> ?m k = Some i)"
    by (auto simp: ran_def split: if_splits)
  have pos': "\<forall>i \<in> ran ?m'. 0 < Index i"
  proof
    fix i assume "i \<in> ran ?m'"
    from ran' [OF this] show "0 < Index i"
      using pos inv by (auto simp: min_inv_def ran_def)
  qed
  have uniq: "unique_indices ?m'"
    using inv fresh unfolding min_inv_def unique_indices_def fresh_index_def
    by (auto split: if_splits) metis+
  have ne: "?m' \<noteq> Map.empty" by simp
  have lead: "\<exists>l. ?m' (leaderID ?s') = Some l \<and> leaderIndex ?s' = Index l
                \<and> (\<forall>i \<in> ran ?m'. Index l \<le> Index i)"
  proof (cases "?m = Map.empty")
    case True
    with inv have "leaderIndex s = 0" by (simp add: min_inv_def)
    then have "leaderID ?s' = ID inst" "leaderIndex ?s' = Index inst"
      by (simp_all add: service_AddInstance_def service_maybeSetLeader_def Let_def)
    moreover have "\<forall>i \<in> ran ?m'. Index inst \<le> Index i"
      using True by (auto simp: ran_def split: if_splits)
    ultimately show ?thesis by simp
  next
    case False
    with inv obtain l where l: "?m (leaderID s) = Some l" "leaderIndex s = Index l"
      and le: "\<forall>i \<in> ran ?m. Index l \<le> Index i"
      by (auto simp: min_inv_def)
    have lpos: "leaderIndex s \<noteq> 0"
      using inv l by (auto simp: min_inv_def ran_def)
    show ?thesis
    proof (cases "Index inst < Index l")
      case True
      then have "leaderID ?s' = ID inst" "leaderIndex ?s' = Index inst"
        using l by (simp_all add: service_AddInstance_def service_maybeSetLeader_def Let_def)
      moreover have "\<forall>i \<in> ran ?m'. Index inst \<le> Index i"
      proof
        fix i assume "i \<in> ran ?m'"
        from ran' [OF this] show "Index inst \<le> Index i"
          using le True by (auto simp: ran_def intro: order_trans less_imp_le)
      qed
      ultimately show ?thesis by simp
    next
      case False
      then have same: "leaderID ?s' = leaderID s" "leaderIndex ?s' = Index l"
        using l lpos by (simp_all add: service_AddInstance_def service_maybeSetLeader_def Let_def)
      have li: "Index l \<le> Index inst" using False by simp
      have all: "\<forall>i \<in> ran ?m'. Index l \<le> Index i"
      proof
        fix i assume "i \<in> ran ?m'"
        from ran' [OF this] show "Index l \<le> Index i"
          using le li by (auto simp: ran_def)
      qed
      show ?thesis
      proof (cases "leaderID s = ID inst")
        case True
        with fresh l have "Index l = Index inst" by (simp add: fresh_index_def)
        with same True all show ?thesis by simp
      next
        case False
        with same l all show ?thesis by simp
      qed
    qed
  qed
  show ?thesis
    unfolding min_inv_def m' using keyed pos' uniq ne lead by simp
qed

lemma min_inv_remove:
  assumes inv: "min_inv s" and ro: "range_order ks ((instances s)(iid := None))"
  shows "min_inv (snd (service_RemoveInstance ks iid s))"
proof (cases "instances s iid")
  case None
  with inv show ?thesis by (simp add: service_RemoveInstance_def)
next
  case (Some inst)
  let ?m = "instances s"
  let ?m' = "?m(iid := None)"
  have keyed: "keyed_by_ID ?m" using inv by (simp add: min_inv_def)
  then have id: "ID inst = iid" using Some by (simp add: keyed_by_ID_def)
  have k': "keyed_by_ID ?m'" using keyed by (rule keyed_del)
  have pos': "\<forall>i \<in> ran ?m'. 0 < Index i"
    using inv ran_del_subset [of ?m iid] by (auto simp: min_inv_def)
  have u': "unique_indices ?m'" using inv by (simp add: min_inv_def unique_del)
  have ne: "?m \<noteq> Map.empty" using Some by auto
  with inv obtain l where l: "?m (leaderID s) = Some l" "leaderIndex s = Index l"
    and le: "\<forall>i \<in> ran ?m. Index l \<le> Index i"
    by (auto simp: min_inv_def)
  show ?thesis
  proof (cases "iid = leaderID s")
    case True
    let ?s2 = "s\<lparr>instances := ?m', leaderID := [], leaderIndex := 0\<rparr>"
    have r: "snd (service_RemoveInstance ks iid s) = service_maybePickLeader ks ?s2"
      using Some id True by (simp add: service_RemoveInstance_def Let_def)
    show ?thesis
    proof (cases "?m' = Map.empty")
      case True
      then have "service_maybePickLeader ks ?s2 = ?s2" by (simp add: pick_empty)
      with r True k' show ?thesis by (simp add: min_inv_def unique_indices_def)
    next
      case False
      have "\<exists>l. instances ?s2 (leaderID (service_maybePickLeader ks ?s2)) = Some l
              \<and> leaderIndex (service_maybePickLeader ks ?s2) = Index l
              \<and> (\<forall>i \<in> ran (instances ?s2). Index l \<le> Index i)"
        by (rule pick_min) (use ro k' pos' False in simp_all)
      with r False k' pos' u' show ?thesis by (simp add: min_inv_def)
    qed
  next
    case False
    then have r: "snd (service_RemoveInstance ks iid s) = s\<lparr>instances := ?m'\<rparr>"
      using Some id by (simp add: service_RemoveInstance_def Let_def)
    have l': "?m' (leaderID s) = Some l" using l False by simp
    then have "?m' \<noteq> Map.empty" by (metis option.distinct(1))
    moreover have "\<forall>i \<in> ran ?m'. Index l \<le> Index i"
      using le ran_del_subset [of ?m iid] by auto
    ultimately show ?thesis using r k' pos' u' l' l(2) by (simp add: min_inv_def)
  qed
qed

lemma min_inv_set:
  assumes inv: "min_inv s" and keyed: "keyed_by_ID data"
    and pos: "\<forall>inst \<in> ran data. 0 < Index inst" and uniq: "unique_indices data"
    and kept: "same_index_kept (instances s) data" and ro: "range_order ks data"
  shows "min_inv (service_SetInstances ks data s)"
proof (cases "data = Map.empty")
  case True
  then show ?thesis
    by (simp add: service_SetInstances_def Let_def pick_empty min_inv_def keyed_empty
          unique_indices_def)
next
  case False
  let ?s1 = "(if data (leaderID s) = None then s\<lparr>leaderID := [], leaderIndex := 0\<rparr> else s)
               \<lparr>instances := data\<rparr>"
  have r: "service_SetInstances ks data s = service_maybePickLeader ks ?s1"
    by (simp add: service_SetInstances_def Let_def)
  have cur: "leaderIndex ?s1 = 0
      \<or> (\<exists>l. instances ?s1 (leaderID ?s1) = Some l \<and> leaderIndex ?s1 = Index l)"
  proof (cases "data (leaderID s)")
    case None
    then show ?thesis by simp
  next
    case (Some new)
    show ?thesis
    proof (cases "instances s = Map.empty")
      case True
      with inv have "leaderIndex s = 0" by (simp add: min_inv_def)
      with Some show ?thesis by simp
    next
      case False
      with inv obtain l where l: "instances s (leaderID s) = Some l" "leaderIndex s = Index l"
        by (auto simp: min_inv_def)
      with kept Some have "Index l = Index new" by (auto simp: same_index_kept_def)
      with Some l show ?thesis by simp
    qed
  qed
  have "\<exists>l. instances ?s1 (leaderID (service_maybePickLeader ks ?s1)) = Some l
          \<and> leaderIndex (service_maybePickLeader ks ?s1) = Index l
          \<and> (\<forall>i \<in> ran (instances ?s1). Index l \<le> Index i)"
    by (rule pick_min) (use ro keyed pos False cur in \<open>simp_all split: if_splits\<close>)
  with r keyed pos uniq False show ?thesis by (simp add: min_inv_def)
qed

lemma min_inv_broadcast:
  "min_inv s \<Longrightarrow> min_inv (snd (service_BroadcastLeader s))"
  by (simp add: min_inv_def service_BroadcastLeader_def keyed_empty unique_indices_def)

lemma reach_uniq_min_inv: "reach_uniq s \<Longrightarrow> min_inv s"
proof (induction rule: reach_uniq.induct)
  case uniq_new
  show ?case by (rule min_inv_new)
next
  case (uniq_add s inst)
  then show ?case by (simp add: min_inv_add)
next
  case (uniq_remove s ks iid)
  then show ?case by (simp add: min_inv_remove)
next
  case (uniq_set s data ks)
  then show ?case by (simp add: min_inv_set)
next
  case (uniq_broadcast s)
  then show ?case by (simp add: min_inv_broadcast)
qed

text \<open>
  C3. After any sequence of mutations of a service in which every instance handed in has
  a strictly positive index, indices are unique and a registered ID is handed in again only
  with its index, a service with at least one instance has a leader: a registered
  instance whose index is smaller than the index of every other registered instance.
\<close>

theorem Leader_smallest_Index:
  assumes "reach_uniq s" and "instances s \<noteq> Map.empty"
  shows "\<exists>l. service_Leader (Some s) = Some l \<and> l \<in> ran (instances s)
           \<and> (\<forall>i \<in> ran (instances s). i \<noteq> l \<longrightarrow> Index l < Index i)"
proof -
  have inv: "min_inv s" using assms(1) by (rule reach_uniq_min_inv)
  with assms(2) obtain l where l: "instances s (leaderID s) = Some l"
    and le: "\<forall>i \<in> ran (instances s). Index l \<le> Index i"
    by (auto simp: min_inv_def)
  have u: "unique_indices (instances s)" using inv by (simp add: min_inv_def)
  have "Index l < Index i" if i: "i \<in> ran (instances s)" and ne: "i \<noteq> l" for i
  proof -
    from i obtain k where k: "instances s k = Some i" by (auto simp: ran_def)
    with l ne have "k \<noteq> leaderID s" by auto
    with u k l have "Index i \<noteq> Index l" unfolding unique_indices_def by blast
    moreover have "Index l \<le> Index i" using le i by simp
    ultimately show ?thesis by simp
  qed
  moreover have "l \<in> ran (instances s)" using l by (auto simp: ran_def)
  ultimately show ?thesis using l by (auto simp: service_Leader_def)
qed

theorem Leader_smallest_Index_witness:
  "reach_uniq (snd (service_RemoveInstance [''b2''] ''a1''
      (snd (service_AddInstance instA (snd (service_AddInstance instB newService))))))
   \<and> reach_uniq (snd (service_AddInstance instA (snd (service_AddInstance instB newService))))
   \<and> instances (snd (service_AddInstance instA (snd (service_AddInstance instB newService)))) \<noteq> Map.empty
   \<and> service_Leader (Some (snd (service_AddInstance instA (snd (service_AddInstance instB newService)))))
       = Some instA
   \<and> (\<exists>l. service_Leader (Some (snd (service_AddInstance instA (snd (service_AddInstance instB newService)))))
            = Some l
          \<and> l \<in> ran (instances (snd (service_AddInstance instA (snd (service_AddInstance instB newService)))))
          \<and> (\<forall>i \<in> ran (instances (snd (service_AddInstance instA (snd (service_AddInstance instB newService))))).
                i \<noteq> l \<longrightarrow> Index l < Index i))"
proof -
  let ?s1 = "snd (service_AddInstance instB newService)"
  let ?s2 = "snd (service_AddInstance instA ?s1)"
  have i1: "instances ?s1 = [''b2'' \<mapsto> instB]"
    by (simp add: service_AddInstance_def Let_def newService_def instB_def)
  have i2: "instances ?s2 = [''b2'' \<mapsto> instB, ''a1'' \<mapsto> instA]"
    by (simp add: service_AddInstance_def Let_def newService_def instA_def instB_def)
  have r1: "reach_uniq ?s1"
    by (rule uniq_add [OF uniq_new]) (simp_all add: instB_def fresh_index_def newService_def)
  have f2: "fresh_index (instances ?s1) instA"
    unfolding i1 by (auto simp: fresh_index_def instA_def instB_def split: if_splits)
  have r2: "reach_uniq ?s2"
    by (rule uniq_add [OF r1 _ f2]) (simp add: instA_def)
  have o3: "range_order [''b2''] ((instances ?s2)(''a1'' := None))"
    unfolding i2 by (auto simp: range_order_def)
  have r3: "reach_uniq (snd (service_RemoveInstance [''b2''] ''a1'' ?s2))"
    by (rule uniq_remove [OF r2 o3])
  have ne: "instances ?s2 \<noteq> Map.empty"
    unfolding i2 by simp
  have ld: "service_Leader (Some ?s2) = Some instA"
    by (simp add: service_Leader_def service_AddInstance_def service_maybeSetLeader_def Let_def
          newService_def instA_def instB_def)
  show ?thesis
    using r3 r2 ne ld Leader_smallest_Index [OF r2 ne] by simp
qed

section \<open>Equality of metadata\<close>

text \<open>On Go maps, which are finite, \<^verbatim>\<open>mapEqual\<close> is equality.\<close>

lemma mapEqual_iff:
  assumes "finite (dom x)" and "finite (dom y)"
  shows "mapEqual x y \<longleftrightarrow> x = y"
proof
  assume e: "mapEqual x y"
  then have c: "card (dom x) = card (dom y)" and a: "\<forall>k \<in> dom x. y k = x k"
    by (auto simp: mapEqual_def split: if_splits)
  from a have "dom x \<subseteq> dom y" by (auto simp: dom_def)
  with c assms have "dom x = dom y" by (simp add: card_subset_eq)
  with a show "x = y" by (intro ext) (metis domIff)
qed (simp add: mapEqual_refl)

end
